theory Spec2Isabelle
  imports Main "HOL-Library.Multiset" "HOL-Library.List_Lexorder" "HOL-Library.Char_ord"
    "HOL-Library.Stream" "HOL-Library.AList"
begin

section \<open>Data model\<close>

text \<open>
  A Python exception is an instance of a class carrying an argument; the model keeps the
  class name and the argument as text.
\<close>

datatype exn = Exn (exn_class: string) (exn_arg: string)

text \<open>
  A row of the table built by \<open>ingest_subscription_logs\<close>
  (columns TimeGenerated, ResourceId, OperationName, Level, Message). The annotation
  values of an event are taken to be text. Strings are compared as Python compares
  \<open>str\<close>: lexicographically, character by character.
\<close>

record log_row =
  TimeGenerated :: string
  ResourceId :: string
  OperationName :: string
  Level :: string
  Message :: string

type_synonym tags_t = "(string \<times> string) list"

text \<open>The table after the merge: three more columns, null where nothing matched.\<close>

record merged_row = log_row +
  ResourceGroup :: "string option"
  Location :: "string option"
  Tags :: "tags_t option"

text \<open>The table after the \<open>Category\<close> column is assigned.\<close>

record enriched_row = merged_row +
  Category :: string

text \<open>A resource as listed by the monitor client: \<open>r.id\<close>, \<open>r.resource_group\<close>,
  \<open>r.location\<close>, \<open>r.tags\<close> (a resource may have no tags).\<close>

record resource =
  res_id :: string
  resource_group :: string
  location :: string
  tags :: "tags_t option"

type_synonym resource_tuple = "string \<times> string \<times> string \<times> tags_t option"

section \<open>Enrichment and summaries (\<open>process_log_data\<close>)\<close>

text \<open>
  \<open>pd.DataFrame(data=[(r.id, r.resource_group, r.location, r.tags) for r in sub_resources])\<close>
\<close>

definition resource_df :: "resource list \<Rightarrow> resource_tuple list" where
  "resource_df sub_resources =
     map (\<lambda>r. (res_id r, resource_group r, location r, tags r)) sub_resources"

text \<open>
  \<open>sub_df.merge(resource_df, on='ResourceId', how='left')\<close>: the rows of the left
  table in their order; each left row is paired with every right row of the same key, in
  the right table's order, and with nulls when the right table has no such key.
\<close>

definition attach :: "log_row \<Rightarrow> resource_tuple \<Rightarrow> merged_row" where
  "attach row r = (case r of (i, g, l, t) \<Rightarrow>
     \<lparr>TimeGenerated = TimeGenerated row, ResourceId = ResourceId row,
      OperationName = OperationName row, Level = Level row, Message = Message row,
      ResourceGroup = Some g, Location = Some l, Tags = t\<rparr>)"

definition attach_null :: "log_row \<Rightarrow> merged_row" where
  "attach_null row =
     \<lparr>TimeGenerated = TimeGenerated row, ResourceId = ResourceId row,
      OperationName = OperationName row, Level = Level row, Message = Message row,
      ResourceGroup = None, Location = None, Tags = None\<rparr>"

definition merge_row :: "resource_tuple list \<Rightarrow> log_row \<Rightarrow> merged_row list" where
  "merge_row right row =
     (case filter (\<lambda>r. fst r = ResourceId row) right of
        [] \<Rightarrow> [attach_null row]
      | m # ms \<Rightarrow> map (attach row) (m # ms))"

definition merge_left :: "log_row list \<Rightarrow> resource_tuple list \<Rightarrow> merged_row list" where
  "merge_left left right = concat (map (merge_row right) left)"

text \<open>
  \<open>x.split('/')\<close> with a separator of one character: the pieces between the
  separators, empty pieces included; never an empty list.
\<close>

fun split :: "char \<Rightarrow> string \<Rightarrow> string list" where
  "split sep [] = [[]]"
| "split sep (c # cs) =
     (if c = sep then [] # split sep cs
      else (case split sep cs of [] \<Rightarrow> [[c]] | w # ws \<Rightarrow> (c # w) # ws))"

text \<open>\<open>lambda x: x.split('/')[0]\<close>; indexing an empty list raises.\<close>

definition category :: "string \<Rightarrow> exn + string" where
  "category x =
     (case split (CHR ''/'') x of
        [] \<Rightarrow> Inl (Exn ''IndexError'' ''list index out of range'')
      | w # ws \<Rightarrow> Inr w)"

text \<open>\<open>Series.apply\<close>: the function on every row in order; the first exception ends it.\<close>

fun apply_rows :: "('a \<Rightarrow> exn + 'b) \<Rightarrow> 'a list \<Rightarrow> exn + 'b list" where
  "apply_rows f [] = Inr []"
| "apply_rows f (x # xs) =
     (case f x of
        Inl e \<Rightarrow> Inl e
      | Inr y \<Rightarrow> (case apply_rows f xs of Inl e \<Rightarrow> Inl e | Inr ys \<Rightarrow> Inr (y # ys)))"

definition with_category :: "merged_row \<Rightarrow> exn + enriched_row" where
  "with_category row =
     (case category (OperationName row) of
        Inl e \<Rightarrow> Inl e
      | Inr c \<Rightarrow> Inr
          \<lparr>TimeGenerated = TimeGenerated row, ResourceId = ResourceId row,
           OperationName = OperationName row, Level = Level row, Message = Message row,
           ResourceGroup = ResourceGroup row, Location = Location row, Tags = Tags row,
           Category = c\<rparr>)"

text \<open>
  \<open>df.groupby(col).size().reset_index(name='Count')\<close>: one row per distinct key, the
  keys sorted ascending (the default \<open>sort=True\<close> of \<open>groupby\<close>), each with the number of
  rows that have the key.
\<close>

definition groupby_size :: "('r \<Rightarrow> 'k::linorder) \<Rightarrow> 'r list \<Rightarrow> ('k \<times> nat) list" where
  "groupby_size col rows =
     map (\<lambda>k. (k, length (filter (\<lambda>r. col r = k) rows))) (sort (remdups (map col rows)))"

record analysis_result =
  subscription_logs :: "enriched_row list"
  operation_summary :: "(string \<times> nat) list"
  severity_summary :: "(string \<times> nat) list"
  resource_summary :: "(string \<times> nat) list"

text \<open>
  The body of the loop of \<open>process_log_data\<close>, once the resources are listed, in its
  two parts. \<open>enrich\<close> is the merge with the resources and the assignment of the
  \<open>Category\<close> column; \<open>summarize\<close> is the three \<open>groupby\<close> lines and the dictionary
  stored for the subscription; \<open>analyse\<close> is the one after the other.
\<close>

definition enrich :: "log_row list \<Rightarrow> resource list \<Rightarrow> exn + enriched_row list" where
  "enrich sub_df sub_resources =
     apply_rows with_category (merge_left sub_df (resource_df sub_resources))"

definition summarize :: "enriched_row list \<Rightarrow> analysis_result" where
  "summarize sub_df =
     \<lparr>subscription_logs = sub_df,
      operation_summary = groupby_size OperationName sub_df,
      severity_summary = groupby_size Level sub_df,
      resource_summary = groupby_size ResourceId sub_df\<rparr>"

definition analyse :: "log_row list \<Rightarrow> resource list \<Rightarrow> exn + analysis_result" where
  "analyse sub_df sub_resources =
     (case enrich sub_df sub_resources of
        Inl e \<Rightarrow> Inl e
      | Inr enriched \<Rightarrow> Inr (summarize enriched))"

section \<open>Ingestion (\<open>ingest_subscription_logs\<close>)\<close>

text \<open>
  A received event: its message annotations (a dictionary) and what
  \<open>body_as_str(encoding='UTF-8')\<close> gives, which is the text or an exception.
\<close>

record event =
  annotations :: "string \<rightharpoonup> string"
  body_as_str :: "exn + string"

text \<open>\<open>d[k]\<close> on a dictionary raises \<open>KeyError(k)\<close> when the key is absent.\<close>

definition subscript :: "(string \<rightharpoonup> string) \<Rightarrow> string \<Rightarrow> exn + string" where
  "subscript d k = (case d k of None \<Rightarrow> Inl (Exn ''KeyError'' k) | Some v \<Rightarrow> Inr v)"

text \<open>The dictionary display of \<open>on_event\<close>: its values are evaluated in the order written.\<close>

definition event_dict :: "event \<Rightarrow> exn + log_row" where
  "event_dict ev =
     (case subscript (annotations ev) ''microsoft.azure.monitor.metricValueTimeUTC'' of
        Inl e \<Rightarrow> Inl e
      | Inr t \<Rightarrow>
     (case subscript (annotations ev) ''resourceId'' of
        Inl e \<Rightarrow> Inl e
      | Inr r \<Rightarrow>
     (case subscript (annotations ev) ''operationName'' of
        Inl e \<Rightarrow> Inl e
      | Inr op \<Rightarrow>
     (case subscript (annotations ev) ''level'' of
        Inl e \<Rightarrow> Inl e
      | Inr l \<Rightarrow>
     (case body_as_str ev of
        Inl e \<Rightarrow> Inl e
      | Inr m \<Rightarrow>
          Inr \<lparr>TimeGenerated = t, ResourceId = r, OperationName = op, Level = l,
               Message = m\<rparr>)))))"

text \<open>
  The callback \<open>on_event\<close> (its \<open>partition_context\<close> is not used): the table is the
  state, passed in and returned; the first component is the exception raised, if any.
  \<open>df.loc[len(df)] = event_dict\<close> adds the row at the end.
\<close>

definition on_event :: "event \<Rightarrow> log_row list \<Rightarrow> exn option \<times> log_row list" where
  "on_event ev df =
     (case event_dict ev of
        Inl e \<Rightarrow> (Some e, df)
      | Inr row \<Rightarrow> (None, df @ [row]))"

text \<open>
  What the consumer client does during \<open>receive\<close>, one step at a time: it hands an
  event to the callback, or the client is closed, or it fails with an error.
  \<open>receive\<close> blocks until the client is closed or fails; an exception of the callback goes
  to the client's error handling (no \<open>on_error\<close> is given) and receiving goes on.
  A feed is the unending sequence of these steps; a run of \<open>receive\<close> that never returns
  has the value \<open>None\<close>.
\<close>

datatype delivery = is_Event: Event event | Closed | ClientError exn

partial_function (option) receive :: "delivery stream \<Rightarrow> log_row list \<Rightarrow> (exn + log_row list) option"
  where
  "receive feed df =
     (case shd feed of
        Event ev \<Rightarrow> receive (stl feed) (snd (on_event ev df))
      | Closed \<Rightarrow> Some (Inr df)
      | ClientError e \<Rightarrow> Some (Inl e))"

text \<open>\<open>ingest_subscription_logs\<close>: an empty table, \<open>receive\<close>, then \<open>return df\<close>. The
  subscription id is only printed.\<close>

definition ingest_subscription_logs ::
    "string \<Rightarrow> delivery stream \<Rightarrow> (exn + log_row list) option" where
  "ingest_subscription_logs subscription_id feed = receive feed []"

section \<open>The run (\<open>main\<close>)\<close>

text \<open>
  \<open>log_data\<close> and \<open>analysis_results\<close> are dictionaries: an assignment to a key that is
  present replaces the value in place, a new key goes to the end.
\<close>

type_synonym log_data_t = "(string \<times> log_row list) list"
type_synonym analysis_results_t = "(string \<times> analysis_result) list"

text \<open>The first loop of \<open>main\<close>; \<open>feeds\<close> gives what the client delivers during the
  ingestion of each subscription.\<close>

fun ingest_loop ::
    "(string \<Rightarrow> delivery stream) \<Rightarrow> string list \<Rightarrow> log_data_t \<Rightarrow> (exn + log_data_t) option" where
  "ingest_loop feeds [] log_data = Some (Inr log_data)"
| "ingest_loop feeds (s # ss) log_data =
     (case ingest_subscription_logs s (feeds s) of
        None \<Rightarrow> None
      | Some (Inl e) \<Rightarrow> Some (Inl e)
      | Some (Inr df) \<Rightarrow> ingest_loop feeds ss (AList.update s df log_data))"

text \<open>The loop of \<open>process_log_data\<close>; \<open>list_resources\<close> is
  \<open>monitor_client.resources.list(sub_id, expand="tags")\<close>, which gives the resources or
  raises.\<close>

fun process_loop ::
    "(string \<Rightarrow> exn + resource list) \<Rightarrow> log_data_t \<Rightarrow> analysis_results_t
      \<Rightarrow> exn + analysis_results_t" where
  "process_loop list_resources [] analysis_results = Inr analysis_results"
| "process_loop list_resources ((sub_id, sub_df) # rest) analysis_results =
     (case list_resources sub_id of
        Inl e \<Rightarrow> Inl e
      | Inr sub_resources \<Rightarrow>
     (case analyse sub_df sub_resources of
        Inl e \<Rightarrow> Inl e
      | Inr result \<Rightarrow>
          process_loop list_resources rest (AList.update sub_id result analysis_results)))"

definition process_log_data ::
    "(string \<Rightarrow> exn + resource list) \<Rightarrow> log_data_t \<Rightarrow> exn + analysis_results_t" where
  "process_log_data list_resources log_data = process_loop list_resources log_data []"

text \<open>
  How a run of \<open>main\<close> ends: the report was generated from the results, or the handler
  of the one \<open>try\<close> around the whole body printed \<open>Log analysis failed\<close>, or an
  exception that the handler does not catch left \<open>main\<close>.
\<close>

datatype outcome =
    Report log_data_t analysis_results_t
  | Log_analysis_failed exn
  | Uncaught exn

text \<open>
  The handler is \<open>except Exception\<close>: it catches the instances of \<open>Exception\<close>. The
  built-in exceptions that are not are \<open>BaseException\<close> itself, \<open>KeyboardInterrupt\<close>,
  \<open>SystemExit\<close> and \<open>GeneratorExit\<close>; these go through.
\<close>

definition is_Exception :: "exn \<Rightarrow> bool" where
  "is_Exception e =
     (exn_class e \<notin> set [''BaseException'', ''KeyboardInterrupt'', ''SystemExit'',
        ''GeneratorExit''])"

definition except_Exception :: "exn \<Rightarrow> outcome" where
  "except_Exception e = (if is_Exception e then Log_analysis_failed e else Uncaught e)"

text \<open>
  \<open>main\<close>. \<open>subscriptions\<close> is what \<open>subscription_client.subscriptions.list()\<close> gives
  (the ids, or an exception); \<open>generate_excel_report\<close> is taken by what it raises, if
  anything. \<open>None\<close>: the run never ends.
\<close>

definition main ::
    "exn + string list \<Rightarrow> (string \<Rightarrow> delivery stream) \<Rightarrow> (string \<Rightarrow> exn + resource list)
      \<Rightarrow> (log_data_t \<Rightarrow> analysis_results_t \<Rightarrow> exn option) \<Rightarrow> outcome option" where
  "main subscriptions feeds list_resources generate_excel_report =
     (case subscriptions of
        Inl e \<Rightarrow> Some (except_Exception e)
      | Inr subs \<Rightarrow>
     (case ingest_loop feeds subs [] of
        None \<Rightarrow> None
      | Some (Inl e) \<Rightarrow> Some (except_Exception e)
      | Some (Inr log_data) \<Rightarrow>
     (case process_log_data list_resources log_data of
        Inl e \<Rightarrow> Some (except_Exception e)
      | Inr analysis_results \<Rightarrow>
     (case generate_excel_report log_data analysis_results of
        Some e \<Rightarrow> Some (except_Exception e)
      | None \<Rightarrow> Some (Report log_data analysis_results)))))"

section \<open>Example data\<close>

definition row_vm :: log_row where
  "row_vm = \<lparr>TimeGenerated = ''2024-01-01T00:00:00Z'', ResourceId = ''/subscriptions/s1/vm1'',
     OperationName = ''Microsoft.Compute/virtualMachines/write'', Level = ''Error'',
     Message = ''write failed''\<rparr>"

definition row_ping :: log_row where
  "row_ping = \<lparr>TimeGenerated = ''2024-01-01T00:00:05Z'', ResourceId = ''/subscriptions/s1/gone'',
     OperationName = ''Ping'', Level = ''Info'', Message = ''ok''\<rparr>"

definition row_acct :: log_row where
  "row_acct = \<lparr>TimeGenerated = ''2024-01-01T00:00:09Z'', ResourceId = ''/subscriptions/s1/acct1'',
     OperationName = ''Microsoft.Storage/storageAccounts/read'', Level = ''Info'',
     Message = ''read''\<rparr>"

definition res_vm :: resource where
  "res_vm = \<lparr>res_id = ''/subscriptions/s1/vm1'', resource_group = ''rg-old'',
     location = ''westeurope'', tags = None\<rparr>"

definition res_vm_again :: resource where
  "res_vm_again = \<lparr>res_id = ''/subscriptions/s1/vm1'', resource_group = ''rg-new'',
     location = ''northeurope'', tags = Some [(''env'', ''prod'')]\<rparr>"

definition res_acct :: resource where
  "res_acct = \<lparr>res_id = ''/subscriptions/s1/acct1'', resource_group = ''rg-data'',
     location = ''westeurope'', tags = Some []\<rparr>"

definition enr_vm :: enriched_row where
  "enr_vm = \<lparr>TimeGenerated = ''2024-01-01T00:00:00Z'', ResourceId = ''/subscriptions/s1/vm1'',
     OperationName = ''Microsoft.Compute/virtualMachines/write'', Level = ''Error'',
     Message = ''write failed'', ResourceGroup = Some ''rg-old'', Location = Some ''westeurope'',
     Tags = None, Category = ''Microsoft.Compute''\<rparr>"

definition enr_acct :: enriched_row where
  "enr_acct = \<lparr>TimeGenerated = ''2024-01-01T00:00:09Z'', ResourceId = ''/subscriptions/s1/acct1'',
     OperationName = ''Microsoft.Storage/storageAccounts/read'', Level = ''Info'',
     Message = ''read'', ResourceGroup = None, Location = None,
     Tags = None, Category = ''Microsoft.Storage''\<rparr>"

definition ev_ok :: event where
  "ev_ok = \<lparr>annotations =
       [''microsoft.azure.monitor.metricValueTimeUTC'' \<mapsto> ''2024-01-01T00:00:05Z'',
        ''resourceId'' \<mapsto> ''/subscriptions/s1/vm1'',
        ''operationName'' \<mapsto> ''Microsoft.Compute/virtualMachines/read'',
        ''level'' \<mapsto> ''Info''],
     body_as_str = Inr ''read''\<rparr>"

definition ev_no_resource :: event where
  "ev_no_resource = \<lparr>annotations =
       [''microsoft.azure.monitor.metricValueTimeUTC'' \<mapsto> ''2024-01-01T00:00:07Z'',
        ''operationName'' \<mapsto> ''Microsoft.Compute/virtualMachines/read'',
        ''level'' \<mapsto> ''Info''],
     body_as_str = Inr ''read''\<rparr>"

definition directory_fails_for :: "string \<Rightarrow> string \<Rightarrow> exn + resource list" where
  "directory_fails_for bad sub_id =
     (if sub_id = bad then Inl (Exn ''HttpResponseError'' sub_id) else Inr [])"

definition feed_fails_for :: "string \<Rightarrow> string \<Rightarrow> delivery stream" where
  "feed_fails_for bad sub_id =
     (if sub_id = bad then sconst (ClientError (Exn ''EventHubError'' sub_id))
      else sconst Closed)"

section \<open>Facts about the enrichment\<close>

lemmas example_defs = row_vm_def row_ping_def row_acct_def res_vm_def res_vm_again_def res_acct_def

lemmas enrich_defs = enrich_def merge_left_def merge_row_def resource_df_def attach_def attach_null_def
  with_category_def category_def

lemma split_takeWhile: "\<exists>ws. split sep x = takeWhile (\<lambda>c. c \<noteq> sep) x # ws"
  by (induction x) auto

lemma category_takeWhile: "category x = Inr (takeWhile (\<lambda>c. c \<noteq> CHR ''/'') x)"
proof -
  obtain ws where "split (CHR ''/'') x = takeWhile (\<lambda>c. c \<noteq> CHR ''/'') x # ws"
    using split_takeWhile by blast
  then show ?thesis by (simp add: category_def)
qed

lemma with_category_Inr:
  "with_category row = Inr
      \<lparr>TimeGenerated = TimeGenerated row, ResourceId = ResourceId row,
       OperationName = OperationName row, Level = Level row, Message = Message row,
       ResourceGroup = ResourceGroup row, Location = Location row, Tags = Tags row,
       Category = takeWhile (\<lambda>c. c \<noteq> CHR ''/'') (OperationName row)\<rparr>"
  by (simp add: with_category_def category_takeWhile)

lemma apply_rows_total: "(\<And>x. f x = Inr (g x)) \<Longrightarrow> apply_rows f xs = Inr (map g xs)"
  by (induction xs) auto

lemma with_category_projr: "with_category row = Inr (projr (with_category row))"
  by (simp add: with_category_Inr)

lemma enrich_Inr:
  "enrich sub_df rs =
     Inr (map (\<lambda>row. projr (with_category row)) (merge_left sub_df (resource_df rs)))"
  unfolding enrich_def by (rule apply_rows_total) (rule with_category_projr)

lemma truncate_categorised: "log_row.truncate (projr (with_category row)) = log_row.truncate row"
  by (simp add: with_category_Inr log_row.truncate_def)

lemma truncate_attach: "log_row.truncate (attach row r) = row"
  by (cases r) (simp add: attach_def log_row.truncate_def)

lemma truncate_attach_null: "log_row.truncate (attach_null row) = row"
  by (simp add: attach_null_def log_row.truncate_def)

lemma filter_key_distinct:
  "distinct (map fst xs) \<Longrightarrow> length (filter (\<lambda>r. fst r = k) xs) \<le> Suc 0"
proof (induction xs)
  case Nil
  then show ?case by simp
next
  case (Cons x xs)
  show ?case
  proof (cases "fst x = k")
    case True
    from Cons.prems have "fst x \<notin> fst ` set xs" by simp
    with True have "\<forall>r\<in>set xs. fst r \<noteq> k" by blast
    then have "filter (\<lambda>r. fst r = k) xs = []"
      by (simp add: filter_empty_conv)
    with True show ?thesis by simp
  next
    case False
    with Cons show ?thesis by simp
  qed
qed

lemma map_fst_resource_df: "map fst (resource_df rs) = map res_id rs"
  by (simp add: resource_df_def)

lemma length_merge_row:
  "length (merge_row right row) = max 1 (length (filter (\<lambda>r. fst r = ResourceId row) right))"
  by (simp add: merge_row_def split: list.splits)

lemma truncate_merge_row: "m \<in> set (merge_row right row) \<Longrightarrow> log_row.truncate m = row"
  by (auto simp: merge_row_def truncate_attach truncate_attach_null split: list.splits)

lemma merge_row_single:
  assumes "distinct (map fst right)"
  shows "\<exists>m. merge_row right row = [m]"
proof -
  have "length (merge_row right row) = 1"
    using filter_key_distinct [OF assms, of "ResourceId row"]
    by (simp add: length_merge_row max_def)
  then show ?thesis by (cases "merge_row right row") auto
qed

lemma truncate_merge_left_distinct:
  assumes "distinct (map fst right)"
  shows "map log_row.truncate (merge_left left right) = left"
proof (induction left)
  case Nil
  then show ?case by (simp add: merge_left_def)
next
  case (Cons row left)
  obtain m where m: "merge_row right row = [m]"
    using merge_row_single [OF assms] by blast
  then have "log_row.truncate m = row"
    using truncate_merge_row [of m right row] by simp
  with m Cons show ?case by (simp add: merge_left_def)
qed

lemma length_merge_left_ge: "length left \<le> length (merge_left left right)"
  by (induction left) (simp_all add: merge_left_def length_merge_row)

lemma merge_row_in_merge_left:
  "row \<in> set left \<Longrightarrow> m \<in> set (merge_row right row) \<Longrightarrow> m \<in> set (merge_left left right)"
  by (auto simp: merge_left_def)

lemma merge_row_unmatched:
  "ResourceId row \<notin> fst ` set right \<Longrightarrow> merge_row right row = [attach_null row]"
proof -
  assume "ResourceId row \<notin> fst ` set right"
  then have "filter (\<lambda>r. fst r = ResourceId row) right = []"
    by (force simp: filter_empty_conv)
  then show ?thesis by (simp add: merge_row_def)
qed

section \<open>Claims about the enrichment\<close>

text \<open>
  C9. The enrichment always gives a table, and in every row of it the category is the part
  of the operation name before its first \<open>/\<close>: when the operation name has no \<open>/\<close> the
  category is the whole operation name; when it has one, the category has no \<open>/\<close> and the
  operation name is the category, a \<open>/\<close>, and a rest.
\<close>

theorem enrich_first_segment:
  "\<exists>out. enrich sub_df sub_resources = Inr out \<and>
     (\<forall>r\<in>set out.
        (CHR ''/'' \<notin> set (OperationName r) \<longrightarrow> Category r = OperationName r) \<and>
        (CHR ''/'' \<in> set (OperationName r) \<longrightarrow>
           CHR ''/'' \<notin> set (Category r) \<and>
           (\<exists>rest. OperationName r = Category r @ CHR ''/'' # rest)))"
proof -
  let ?P = "\<lambda>c. c \<noteq> CHR ''/''"
  have seg: "(CHR ''/'' \<notin> set x \<longrightarrow> takeWhile ?P x = x) \<and>
        (CHR ''/'' \<in> set x \<longrightarrow>
           CHR ''/'' \<notin> set (takeWhile ?P x) \<and> (\<exists>rest. x = takeWhile ?P x @ CHR ''/'' # rest))"
    for x :: string
  proof (intro conjI impI)
    assume "CHR ''/'' \<notin> set x"
    then show "takeWhile ?P x = x" by (auto intro: takeWhile_eq_all_conv [THEN iffD2])
  next
    assume "CHR ''/'' \<in> set x"
    show "CHR ''/'' \<notin> set (takeWhile ?P x)"
      by (auto dest: set_takeWhileD)
  next
    assume in_x: "CHR ''/'' \<in> set x"
    then have "dropWhile ?P x \<noteq> []" by auto
    then obtain rest where "dropWhile ?P x = hd (dropWhile ?P x) # rest"
      by (cases "dropWhile ?P x") auto
    moreover have "\<not> ?P (hd (dropWhile ?P x))"
      using \<open>dropWhile ?P x \<noteq> []\<close> by (rule hd_dropWhile)
    ultimately have "dropWhile ?P x = CHR ''/'' # rest" by simp
    then have "x = takeWhile ?P x @ CHR ''/'' # rest"
      using takeWhile_dropWhile_id [of ?P x] by simp
    then show "\<exists>rest. x = takeWhile ?P x @ CHR ''/'' # rest" ..
  qed
  have fields: "OperationName (projr (with_category row)) = OperationName row"
     "Category (projr (with_category row)) = takeWhile ?P (OperationName row)" for row
    by (simp_all add: with_category_Inr)
  show ?thesis
    unfolding enrich_Inr using seg by (auto simp: fields)
qed

theorem enrich_first_segment_witness:
  "\<exists>out. enrich [row_vm, row_ping] [] = Inr out \<and>
     map OperationName out = [''Microsoft.Compute/virtualMachines/write'', ''Ping''] \<and>
     map Category out = [''Microsoft.Compute'', ''Ping'']"
  using enrich_first_segment [of "[row_vm, row_ping]" "[]"]
  by (simp add: enrich_defs example_defs)

text \<open>
  C1, as the code has it. The claim that the output is as long as the input fails when the
  directory lists a resource id twice: the left merge then gives one row per matching
  entry. What holds: the enrichment always gives a table with at least as many rows as
  there are events, with exactly as many when no resource id occurs twice in the
  directory; every event is found in the output with its five values; and an event whose
  resource id is not in the directory is found there with null metadata.
\<close>

theorem enrich_count:
  "\<exists>out. enrich sub_df rs = Inr out \<and>
     length sub_df \<le> length out \<and>
     (distinct (map res_id rs) \<longrightarrow> length out = length sub_df) \<and>
     (\<forall>e\<in>set sub_df. \<exists>r\<in>set out. log_row.truncate r = e) \<and>
     (\<forall>e\<in>set sub_df. ResourceId e \<notin> res_id ` set rs \<longrightarrow>
        (\<exists>r\<in>set out. log_row.truncate r = e \<and>
           ResourceGroup r = None \<and> Location r = None \<and> Tags r = None))"
proof -
  let ?right = "resource_df rs"
  let ?merged = "merge_left sub_df ?right"
  let ?out = "map (\<lambda>row. projr (with_category row)) ?merged"
  have out: "enrich sub_df rs = Inr ?out" by (rule enrich_Inr)
  have ge: "length sub_df \<le> length ?out" by (simp add: length_merge_left_ge)
  have eq: "length ?out = length sub_df" if "distinct (map res_id rs)"
  proof -
    from that have "distinct (map fst ?right)" by (simp add: map_fst_resource_df)
    then have "map log_row.truncate ?merged = sub_df" by (rule truncate_merge_left_distinct)
    then have "length ?merged = length sub_df" by (metis length_map)
    then show ?thesis by simp
  qed
  have kept: "\<exists>r\<in>set ?out. log_row.truncate r = e" if "e \<in> set sub_df" for e
  proof -
    obtain m where m: "m \<in> set (merge_row ?right e)"
      by (cases "merge_row ?right e") (auto simp: merge_row_def split: list.splits)
    then have "m \<in> set ?merged" using that by (rule merge_row_in_merge_left [rotated])
    moreover have "log_row.truncate (projr (with_category m)) = e"
      using m by (simp add: truncate_categorised truncate_merge_row)
    ultimately show ?thesis by auto
  qed
  have nulls: "\<exists>r\<in>set ?out. log_row.truncate r = e \<and>
           ResourceGroup r = None \<and> Location r = None \<and> Tags r = None"
    if "e \<in> set sub_df" "ResourceId e \<notin> res_id ` set rs" for e
  proof -
    from that(2) have "ResourceId e \<notin> fst ` set ?right"
      by (metis map_fst_resource_df set_map)
    then have "merge_row ?right e = [attach_null e]" by (rule merge_row_unmatched)
    then have "attach_null e \<in> set ?merged"
      using that(1) merge_row_in_merge_left [of e sub_df "attach_null e" ?right] by simp
    then have "projr (with_category (attach_null e)) \<in> set ?out" by simp
    moreover have "log_row.truncate (projr (with_category (attach_null e))) = e"
      by (simp add: truncate_categorised truncate_attach_null)
    moreover have "ResourceGroup (projr (with_category (attach_null e))) = None"
      "Location (projr (with_category (attach_null e))) = None"
      "Tags (projr (with_category (attach_null e))) = None"
      by (simp_all add: with_category_Inr attach_null_def)
    ultimately show ?thesis by blast
  qed
  show ?thesis
    using out ge eq kept nulls by blast
qed

theorem enrich_count_witness:
  "distinct (map res_id [res_vm, res_acct]) \<and>
   row_ping \<in> set [row_vm, row_ping] \<and>
   ResourceId row_ping \<notin> res_id ` set [res_vm, res_acct] \<and>
   (\<exists>out. enrich [row_vm, row_ping] [res_vm, res_acct] = Inr out \<and> length out = 2 \<and>
      (\<exists>r\<in>set out. log_row.truncate r = row_ping \<and>
         ResourceGroup r = None \<and> Location r = None \<and> Tags r = None))"
  using enrich_count [of "[row_vm, row_ping]" "[res_vm, res_acct]"]
  by (simp add: enrich_defs example_defs log_row.truncate_def)

text \<open>One event and a directory that lists its resource twice: the enrichment gives a
  table of two rows.\<close>

theorem enrich_count_counterexample:
  "\<not> isl (enrich [row_vm] [res_vm, res_vm_again]) \<and>
   length (projr (enrich [row_vm] [res_vm, res_vm_again])) = 2 \<and>
   length [row_vm] = 1"
  by (simp add: enrich_defs example_defs)

text \<open>
  C10. When no resource id occurs twice in the directory, the enrichment gives a table
  whose rows, cut back to the five columns of the events, are the events themselves, in
  their order: the five values are unchanged, and the rows only gain the three metadata
  columns and the category.
\<close>

theorem enrich_frame:
  assumes "distinct (map res_id rs)"
  shows "\<exists>out. enrich sub_df rs = Inr out \<and> map log_row.truncate out = sub_df"
proof -
  from assms have "distinct (map fst (resource_df rs))" by (simp add: map_fst_resource_df)
  then have "map log_row.truncate (merge_left sub_df (resource_df rs)) = sub_df"
    by (rule truncate_merge_left_distinct)
  then show ?thesis
    by (simp add: enrich_Inr o_def truncate_categorised)
qed

theorem enrich_frame_witness:
  "distinct (map res_id [res_vm, res_acct]) \<and>
   (\<exists>out. enrich [row_acct, row_ping, row_vm] [res_vm, res_acct] = Inr out \<and>
      map log_row.truncate out = [row_acct, row_ping, row_vm])"
  using enrich_frame [of "[res_vm, res_acct]" "[row_acct, row_ping, row_vm]"]
  by (simp add: example_defs)

lemma filter_resource_df_map:
  "filter (\<lambda>r. fst r = k) (resource_df rs) =
     map (\<lambda>r. (res_id r, resource_group r, location r, tags r)) (filter (\<lambda>d. res_id d = k) rs)"
  by (induction rs) (simp_all add: resource_df_def)

lemma columns_merge_row:
  "map (\<lambda>m. (log_row.truncate m, ResourceGroup m, Location m, Tags m))
       (merge_row (resource_df rs) e) =
     (case filter (\<lambda>d. res_id d = ResourceId e) rs of
        [] \<Rightarrow> [(e, None, None, None)]
      | d # ds \<Rightarrow> map (\<lambda>d. (e, Some (resource_group d), Some (location d), tags d)) (d # ds))"
  by (simp add: merge_row_def filter_resource_df_map attach_def attach_null_def
      log_row.truncate_def split: list.splits)

text \<open>
  C6, as the code has it. The claim that the last-registered entry wins, with one
  attachment per event, fails: the left merge keeps every entry. What holds, for every
  directory: the enrichment always gives a table, and its rows, read as the event and
  the three metadata columns, are, for each event in order, one row per directory entry
  with the event's resource id, in the directory's order, each with that entry's
  metadata, and a single row with null metadata when the directory has no such entry.
\<close>

theorem enrich_every_entry:
  "\<exists>out. enrich sub_df rs = Inr out \<and>
     map (\<lambda>r. (log_row.truncate r, ResourceGroup r, Location r, Tags r)) out =
       concat (map (\<lambda>e.
          case filter (\<lambda>d. res_id d = ResourceId e) rs of
            [] \<Rightarrow> [(e, None, None, None)]
          | d # ds \<Rightarrow> map (\<lambda>d. (e, Some (resource_group d), Some (location d), tags d)) (d # ds))
        sub_df)"
proof -
  let ?cols = "\<lambda>r. (log_row.truncate r, ResourceGroup r, Location r, Tags r)"
  let ?colsm = "\<lambda>m. (log_row.truncate m, ResourceGroup m, Location m, Tags m)"
  let ?out = "map (\<lambda>row. projr (with_category row)) (merge_left sub_df (resource_df rs))"
  have "map ?cols ?out = map ?colsm (merge_left sub_df (resource_df rs))"
    by (simp add: o_def with_category_Inr log_row.truncate_def)
  also have "\<dots> = concat (map (\<lambda>e. map ?colsm (merge_row (resource_df rs) e)) sub_df)"
    by (simp add: merge_left_def map_concat o_def)
  also have "\<dots> = concat (map (\<lambda>e.
          case filter (\<lambda>d. res_id d = ResourceId e) rs of
            [] \<Rightarrow> [(e, None, None, None)]
          | d # ds \<Rightarrow> map (\<lambda>d. (e, Some (resource_group d), Some (location d), tags d)) (d # ds))
        sub_df)"
    by (simp only: columns_merge_row)
  finally show ?thesis
    using enrich_Inr [of sub_df rs] by blast
qed

text \<open>One event and a directory that registers its resource twice: two rows, the first
  with the metadata registered first.\<close>

theorem enrich_every_entry_counterexample:
  "\<not> isl (enrich [row_vm] [res_vm, res_vm_again]) \<and>
   map (\<lambda>r. (ResourceGroup r, Location r)) (projr (enrich [row_vm] [res_vm, res_vm_again])) =
     [(Some ''rg-old'', Some ''westeurope''), (Some ''rg-new'', Some ''northeurope'')]"
  by (simp add: enrich_defs example_defs)

section \<open>Facts about the summaries\<close>

lemma keys_groupby_size: "map fst (groupby_size col rows) = sort (remdups (map col rows))"
  by (simp add: groupby_size_def o_def)

lemma groupby_size_ascending: "sorted_wrt (<) (map fst (groupby_size col rows))"
  by (simp add: keys_groupby_size strict_sorted_iff)

lemma one_key_per_row:
  assumes "distinct ks" "a \<in> set ks"
  shows "(\<Sum>k\<leftarrow>ks. if a = k then 1 else 0) = (1::nat)"
proof -
  have "(\<Sum>k\<leftarrow>ks. if a = k then 1 else 0) = (\<Sum>k\<in>set ks. if a = k then 1 else (0::nat))"
    using assms(1) by (rule sum_list_distinct_conv_sum_set)
  also have "\<dots> = 1" using assms(2) by (simp add: sum.delta')
  finally show ?thesis .
qed

lemma counts_cover:
  assumes "distinct ks"
  shows "col ` set rows \<subseteq> set ks \<Longrightarrow>
     (\<Sum>k\<leftarrow>ks. length (filter (\<lambda>r. col r = k) rows)) = length rows"
proof (induction rows)
  case Nil
  then show ?case by simp
next
  case (Cons r rows)
  have "(\<Sum>k\<leftarrow>ks. length (filter (\<lambda>r. col r = k) (r # rows))) =
      (\<Sum>k\<leftarrow>ks. (if col r = k then 1 else 0) + length (filter (\<lambda>r. col r = k) rows))"
    by (rule arg_cong [where f = sum_list]) simp
  also have "\<dots> = (\<Sum>k\<leftarrow>ks. if col r = k then 1 else 0) +
      (\<Sum>k\<leftarrow>ks. length (filter (\<lambda>r. col r = k) rows))"
    by (simp add: sum_list_addf)
  also have "\<dots> = 1 + length rows"
    using Cons one_key_per_row [OF assms, of "col r"] by simp
  finally show ?case by simp
qed

lemma sum_groupby_size: "sum_list (map snd (groupby_size col rows)) = length rows"
proof -
  have "sum_list (map snd (groupby_size col rows)) =
      (\<Sum>k\<leftarrow>sort (remdups (map col rows)). length (filter (\<lambda>r. col r = k) rows))"
    by (simp add: groupby_size_def o_def)
  also have "\<dots> = length rows"
    by (rule counts_cover) simp_all
  finally show ?thesis .
qed

lemma groupby_size_mset:
  assumes "mset rows = mset rows'"
  shows "groupby_size col rows = groupby_size col rows'"
proof -
  have "set rows = set rows'" using assms by (rule mset_eq_setD)
  then have keys: "sort (remdups (map col rows)) = sort (remdups (map col rows'))"
    by (intro sorted_distinct_set_unique) simp_all
  have "length (filter P rows) = length (filter P rows')" for P
  proof -
    have "mset (filter P rows) = mset (filter P rows')" using assms by simp
    then show ?thesis by (rule mset_eq_length)
  qed
  with keys show ?thesis by (simp add: groupby_size_def)
qed

section \<open>Claims about the summaries\<close>

lemma groupby_size_rows:
  "groupby_size col rows =
     map (\<lambda>k. (k, length (filter (\<lambda>r. col r = k) rows))) (sorted_list_of_set (col ` set rows))"
proof -
  have "sorted_list_of_set (col ` set rows) = sort (remdups (map col rows))"
    using sorted_list_of_set_sort_remdups [of "map col rows"] by simp
  then show ?thesis by (simp add: groupby_size_def)
qed

lemma groupby_size_set:
  "set (groupby_size col rows) =
     (\<lambda>k. (k, length (filter (\<lambda>r. col r = k) rows))) ` col ` set rows"
  by (simp add: groupby_size_def)

lemma groupby_size_distinct_keys: "distinct (map fst (groupby_size col rows))"
  by (simp add: keys_groupby_size)

text \<open>
  C5, as the code has it. The claim that the summaries are ordered by descending count
  fails: \<open>groupby\<close> orders a summary by the group key. What holds for every table: each
  of the three summaries has exactly one row for each group key of the table, with the
  number of rows of the table that have the key; and the summary by severity and the
  summary by resource are these rows in strictly ascending order of the key. Nothing is
  said here of the order of the summary by operation, which the report presents as the
  top operations.
\<close>

theorem summaries_rows_and_order:
  "set (operation_summary (summarize sub_df)) =
     (\<lambda>k. (k, length (filter (\<lambda>r. OperationName r = k) sub_df))) ` OperationName ` set sub_df \<and>
   distinct (map fst (operation_summary (summarize sub_df))) \<and>
   severity_summary (summarize sub_df) =
     map (\<lambda>k. (k, length (filter (\<lambda>r. Level r = k) sub_df)))
       (sorted_list_of_set (Level ` set sub_df)) \<and>
   sorted_wrt (<) (map fst (severity_summary (summarize sub_df))) \<and>
   resource_summary (summarize sub_df) =
     map (\<lambda>k. (k, length (filter (\<lambda>r. ResourceId r = k) sub_df)))
       (sorted_list_of_set (ResourceId ` set sub_df)) \<and>
   sorted_wrt (<) (map fst (resource_summary (summarize sub_df)))"
proof -
  have "set (groupby_size OperationName sub_df) =
     (\<lambda>k. (k, length (filter (\<lambda>r. OperationName r = k) sub_df))) ` OperationName ` set sub_df"
    by (rule groupby_size_set)
  moreover have "distinct (map fst (groupby_size OperationName sub_df))"
    by (rule groupby_size_distinct_keys)
  moreover have "groupby_size Level sub_df =
     map (\<lambda>k. (k, length (filter (\<lambda>r. Level r = k) sub_df)))
       (sorted_list_of_set (Level ` set sub_df))"
    by (rule groupby_size_rows)
  moreover have "groupby_size ResourceId sub_df =
     map (\<lambda>k. (k, length (filter (\<lambda>r. ResourceId r = k) sub_df)))
       (sorted_list_of_set (ResourceId ` set sub_df))"
    by (rule groupby_size_rows)
  moreover have "sorted_wrt (<) (map fst (groupby_size Level sub_df))"
    "sorted_wrt (<) (map fst (groupby_size ResourceId sub_df))"
    by (rule groupby_size_ascending)+
  ultimately show ?thesis by (simp only: summarize_def analysis_result.simps simp_thms)
qed

text \<open>One error and two informations: the summary by severity lists the error, of count
  1, before the information, of count 2, which is not an order of descending count.\<close>

theorem summaries_rows_and_order_counterexample:
  "severity_summary (summarize [enr_vm, enr_acct, enr_acct]) = [(''Error'', 1), (''Info'', 2)] \<and>
   \<not> sorted_wrt (\<lambda>p q. snd q \<le> snd p)
     (severity_summary (summarize [enr_vm, enr_acct, enr_acct]))"
  by (simp add: summarize_def groupby_size_def enr_vm_def enr_acct_def)

text \<open>
  C7. For every table given to the summaries, the counts of the summary by operation add
  up to the number of rows of the table, and so do the counts of the summary by severity
  and those of the summary by resource.
\<close>

theorem summary_counts_sum:
  "sum_list (map snd (operation_summary (summarize sub_df))) = length sub_df \<and>
   sum_list (map snd (severity_summary (summarize sub_df))) = length sub_df \<and>
   sum_list (map snd (resource_summary (summarize sub_df))) = length sub_df"
  by (simp add: summarize_def sum_groupby_size)

text \<open>
  C8. When two tables have the same rows, in whatever order, their summaries by
  operation are the same list, row for row, and so are their summaries by severity and
  by resource.
\<close>

theorem summaries_permutation:
  assumes "mset sub_df = mset sub_df'"
  shows "operation_summary (summarize sub_df) = operation_summary (summarize sub_df') \<and>
   severity_summary (summarize sub_df) = severity_summary (summarize sub_df') \<and>
   resource_summary (summarize sub_df) = resource_summary (summarize sub_df')"
  using groupby_size_mset [OF assms, of OperationName] groupby_size_mset [OF assms, of Level]
    groupby_size_mset [OF assms, of ResourceId]
  by (simp add: summarize_def)

theorem summaries_permutation_witness:
  "mset [enr_vm, enr_acct, enr_acct] = mset [enr_acct, enr_vm, enr_acct] \<and>
   operation_summary (summarize [enr_vm, enr_acct, enr_acct]) =
     operation_summary (summarize [enr_acct, enr_vm, enr_acct]) \<and>
   severity_summary (summarize [enr_vm, enr_acct, enr_acct]) =
     severity_summary (summarize [enr_acct, enr_vm, enr_acct]) \<and>
   resource_summary (summarize [enr_vm, enr_acct, enr_acct]) =
     resource_summary (summarize [enr_acct, enr_vm, enr_acct])"
proof -
  have h: "mset [enr_vm, enr_acct, enr_acct] = mset [enr_acct, enr_vm, enr_acct]" by simp
  show ?thesis using h summaries_permutation [OF h] by simp
qed

section \<open>Facts about the ingestion\<close>

lemma receive_Some_stops:
  "receive feed df = Some y \<Longrightarrow> \<exists>n. \<not> is_Event (feed !! n)"
proof (induction rule: receive.raw_induct [rotated 1, consumes 1])
  case (1 rcv feed df y)
  show ?case
  proof (cases "shd feed")
    case (Event ev)
    with 1(2) have "rcv (stl feed) (snd (on_event ev df)) = Some y" by simp
    then obtain n where "\<not> is_Event (stl feed !! n)" using 1(1) by blast
    then have "\<not> is_Event (feed !! Suc n)" by simp
    then show ?thesis ..
  next
    case Closed
    then have "\<not> is_Event (feed !! 0)" by simp
    then show ?thesis ..
  next
    case (ClientError e)
    then have "\<not> is_Event (feed !! 0)" by simp
    then show ?thesis ..
  qed
qed

lemma receive_stops_Some:
  "\<not> is_Event (feed !! n) \<Longrightarrow> \<exists>y. receive feed df = Some y"
proof (induction n arbitrary: feed df)
  case 0
  then show ?case by (cases "shd feed") (simp_all add: receive.simps [of feed])
next
  case (Suc n)
  show ?case
  proof (cases "shd feed")
    case (Event ev)
    from Suc.prems have "\<not> is_Event (stl feed !! n)" by simp
    then obtain y where "receive (stl feed) (snd (on_event ev df)) = Some y"
      using Suc.IH by blast
    with Event show ?thesis by (simp add: receive.simps [of feed])
  next
    case Closed
    then show ?thesis by (simp add: receive.simps [of feed])
  next
    case (ClientError e)
    then show ?thesis by (simp add: receive.simps [of feed])
  qed
qed

lemma receive_Event: "receive (Event ev ## feed) df = receive feed (snd (on_event ev df))"
  by (simp add: receive.simps [of "Event ev ## feed"])

lemma receive_Closed: "receive (Closed ## feed) df = Some (Inr df)"
  by (simp add: receive.simps [of "Closed ## feed"])

lemma receive_events_then_closed:
  "receive (map Event evs @- Closed ## rest) df =
     Some (Inr (fold (\<lambda>ev df. snd (on_event ev df)) evs df))"
  by (induction evs arbitrary: df) (simp_all add: receive_Event receive_Closed)

section \<open>Claims about the ingestion\<close>

text \<open>
  C3, as the code has it. The claim that the collector stops once a budget given by the
  caller is exceeded fails: \<open>ingest_subscription_logs\<close> takes no budget of time or of
  items, and \<open>receive\<close> is called without one. What holds for every feed: the collector
  never returns exactly when the feed hands over events for ever, so it returns exactly
  when the client is closed or fails at some step; and when the client is closed after
  finitely many events, it returns the table accumulated from them.
\<close>

theorem collector_returns_iff:
  "(ingest_subscription_logs subscription_id feed = None) = (\<forall>n. is_Event (feed !! n)) \<and>
   ingest_subscription_logs subscription_id (map Event evs @- Closed ## rest) =
     Some (Inr (fold (\<lambda>ev df. snd (on_event ev df)) evs []))"
proof -
  have "(receive feed [] = None) = (\<forall>n. is_Event (feed !! n))"
    using receive_Some_stops [of feed "[]"] receive_stops_Some [of feed _ "[]"]
    by (cases "receive feed []") auto
  then show ?thesis
    by (simp add: ingest_subscription_logs_def receive_events_then_closed)
qed

text \<open>A feed that delivers a well-formed event at every step: the collector never
  returns.\<close>

theorem collector_returns_iff_counterexample:
  "ingest_subscription_logs ''sub-1'' (sconst (Event ev_ok)) = None"
proof -
  have "\<forall>n. is_Event (sconst (Event ev_ok) !! n)" by simp
  then show ?thesis
    using receive_Some_stops [of "sconst (Event ev_ok)" "[]"]
    by (cases "receive (sconst (Event ev_ok)) []") (auto simp: ingest_subscription_logs_def)
qed

lemma event_dict_first_absent:
  "find (\<lambda>k. annotations ev k = None)
      [''microsoft.azure.monitor.metricValueTimeUTC'', ''resourceId'', ''operationName''] = Some k
   \<Longrightarrow> event_dict ev = Inl (Exn ''KeyError'' k)"
  by (auto simp: event_dict_def subscript_def split: if_splits option.splits)

lemma first_absent_exists:
  "annotations ev k0 = None \<Longrightarrow>
   k0 \<in> set [''microsoft.azure.monitor.metricValueTimeUTC'', ''resourceId'', ''operationName''] \<Longrightarrow>
   \<exists>k. find (\<lambda>k. annotations ev k = None)
      [''microsoft.azure.monitor.metricValueTimeUTC'', ''resourceId'', ''operationName''] = Some k"
  by auto

lemma on_event_raises: "event_dict ev = Inl e \<Longrightarrow> on_event ev df = (Some e, df)"
  by (simp add: on_event_def)

lemma receive_skips:
  "event_dict ev = Inl e \<Longrightarrow>
     receive (map Event before @- Event ev ## feed) df = receive (map Event before @- feed) df"
  by (induction before arbitrary: df) (simp_all add: receive_Event on_event_raises)

text \<open>
  C4, as the code has it. The claim fails in two places: the exception is a \<open>KeyError\<close>,
  the code has no \<open>NormalizationError\<close>, and nothing counts the records skipped. What
  holds for every event in which the annotation of the time, of the resource id or of the
  operation name is absent: the callback raises a \<open>KeyError\<close> that names the first of
  these three keys, in this order, that is absent in the event; the table is left as it
  was, so the event gives no row and no value is defaulted; and wherever the event stands
  in the feed, the collector does with the feed what it does with the feed without the
  event: the events after it are received as before.
\<close>

theorem missing_field_skipped:
  assumes "annotations ev k0 = None"
    and "k0 \<in> set [''microsoft.azure.monitor.metricValueTimeUTC'', ''resourceId'',
      ''operationName'']"
  shows "\<exists>k. find (\<lambda>k. annotations ev k = None)
        [''microsoft.azure.monitor.metricValueTimeUTC'', ''resourceId'', ''operationName'']
        = Some k \<and>
      on_event ev df = (Some (Exn ''KeyError'' k), df) \<and>
      ingest_subscription_logs subscription_id (map Event before @- Event ev ## feed) =
        ingest_subscription_logs subscription_id (map Event before @- feed)"
proof -
  obtain k where k: "find (\<lambda>k. annotations ev k = None)
      [''microsoft.azure.monitor.metricValueTimeUTC'', ''resourceId'', ''operationName''] = Some k"
    using first_absent_exists [OF assms] by blast
  then have raised: "event_dict ev = Inl (Exn ''KeyError'' k)"
    by (rule event_dict_first_absent)
  then have "on_event ev df = (Some (Exn ''KeyError'' k), df)"
    by (rule on_event_raises)
  moreover have "ingest_subscription_logs subscription_id (map Event before @- Event ev ## feed) =
      ingest_subscription_logs subscription_id (map Event before @- feed)"
    unfolding ingest_subscription_logs_def using raised by (rule receive_skips)
  ultimately show ?thesis using k by blast
qed

theorem missing_field_skipped_witness:
  "annotations ev_no_resource ''resourceId'' = None \<and>
   on_event ev_no_resource [row_vm] = (Some (Exn ''KeyError'' ''resourceId''), [row_vm]) \<and>
   ingest_subscription_logs ''sub-1''
       (map Event [ev_ok] @- Event ev_no_resource ## Event ev_ok ## sconst Closed) =
     ingest_subscription_logs ''sub-1'' (map Event [ev_ok] @- Event ev_ok ## sconst Closed)"
proof -
  have h: "annotations ev_no_resource ''resourceId'' = None"
    by (simp add: ev_no_resource_def)
  have m: "''resourceId'' \<in> set [''microsoft.azure.monitor.metricValueTimeUTC'', ''resourceId'',
      ''operationName'']" by simp
  have f: "find (\<lambda>k. annotations ev_no_resource k = None)
        [''microsoft.azure.monitor.metricValueTimeUTC'', ''resourceId'', ''operationName'']
        = Some ''resourceId''"
    by (simp add: ev_no_resource_def)
  show ?thesis
    using h f missing_field_skipped [OF h m, of "[row_vm]" "''sub-1''" "[ev_ok]"
        "Event ev_ok ## sconst Closed"]
    by simp
qed

text \<open>
  An event without the resource id: the exception is a \<open>KeyError\<close>, and the collector
  returns the same value with the event in the feed as without it, so that no count of it
  is kept.
\<close>

theorem missing_field_skipped_counterexample:
  "on_event ev_no_resource [] = (Some (Exn ''KeyError'' ''resourceId''), []) \<and>
   exn_class (Exn ''KeyError'' ''resourceId'') \<noteq> ''NormalizationError'' \<and>
   ingest_subscription_logs ''sub-1'' (Event ev_no_resource ## Event ev_ok ## sconst Closed) =
     ingest_subscription_logs ''sub-1'' (Event ev_ok ## sconst Closed)"
  by (simp add: ingest_subscription_logs_def receive_Event on_event_def event_dict_def
      subscript_def ev_no_resource_def)

section \<open>Facts about the run\<close>

lemma keys_update: "fst ` set (AList.update k v al) = insert k (fst ` set al)"
  by (simp add: AList.dom_update)

lemma analyse_Inr: "\<exists>result. analyse sub_df sub_resources = Inr result"
  by (simp add: analyse_def enrich_Inr)

lemma ingest_loop_keys:
  "ingest_loop feeds subs log_data = Some (Inr log_data') \<Longrightarrow>
     fst ` set log_data' = fst ` set log_data \<union> set subs"
proof (induction subs arbitrary: log_data)
  case Nil
  then show ?case by simp
next
  case (Cons s ss)
  from Cons.prems obtain df where df: "ingest_subscription_logs s (feeds s) = Some (Inr df)"
      and rest: "ingest_loop feeds ss (AList.update s df log_data) = Some (Inr log_data')"
    by (auto split: option.splits sum.splits)
  from Cons.IH [OF rest] show ?case by (simp add: keys_update)
qed

lemma ingest_loop_fails:
  "s \<in> set subs \<Longrightarrow> ingest_subscription_logs s (feeds s) = Some (Inl e) \<Longrightarrow>
     ingest_loop feeds subs log_data \<noteq> Some (Inr log_data')"
proof (induction subs arbitrary: log_data)
  case Nil
  then show ?case by simp
next
  case (Cons t ts)
  show ?case
  proof (cases "t = s")
    case True
    with Cons.prems(2) show ?thesis by simp
  next
    case False
    with Cons.prems have "s \<in> set ts" by simp
    then show ?thesis
      using Cons.IH Cons.prems(2) by (auto split: option.splits sum.splits)
  qed
qed

lemma ingest_loop_reaches:
  "\<forall>t\<in>set pre. ingest_subscription_logs t (feeds t) \<noteq> None \<Longrightarrow>
   ingest_subscription_logs s (feeds s) = Some (Inl e) \<Longrightarrow>
   \<exists>e'. ingest_loop feeds (pre @ s # post) log_data = Some (Inl e') \<and>
      (\<exists>t\<in>set (pre @ s # post). ingest_subscription_logs t (feeds t) = Some (Inl e'))"
proof (induction pre arbitrary: log_data)
  case Nil
  then show ?case by auto
next
  case (Cons p pre)
  from Cons.prems(1) obtain r where r: "ingest_subscription_logs p (feeds p) = Some r"
    by auto
  show ?case
  proof (cases r)
    case (Inl e1)
    with r show ?thesis by auto
  next
    case (Inr df)
    from Cons.prems have "\<forall>t\<in>set pre. ingest_subscription_logs t (feeds t) \<noteq> None" by simp
    from Cons.IH [OF this Cons.prems(2), of "AList.update p df log_data"] r Inr
    show ?thesis by auto
  qed
qed

lemma ingest_loop_ends:
  "\<forall>t\<in>set subs. ingest_subscription_logs t (feeds t) \<noteq> None \<Longrightarrow>
   (\<exists>log_data'. ingest_loop feeds subs log_data = Some (Inr log_data')) \<or>
   (\<exists>e'. ingest_loop feeds subs log_data = Some (Inl e') \<and>
      (\<exists>t\<in>set subs. ingest_subscription_logs t (feeds t) = Some (Inl e')))"
proof (induction subs arbitrary: log_data)
  case Nil
  then show ?case by simp
next
  case (Cons p subs)
  from Cons.prems obtain r where r: "ingest_subscription_logs p (feeds p) = Some r"
    by auto
  show ?case
  proof (cases r)
    case (Inl e1)
    with r show ?thesis by auto
  next
    case (Inr df)
    from Cons.prems have "\<forall>t\<in>set subs. ingest_subscription_logs t (feeds t) \<noteq> None" by simp
    from Cons.IH [OF this, of "AList.update p df log_data"] r Inr
    show ?thesis by auto
  qed
qed

lemma process_loop_fails:
  "s \<in> fst ` set log_data \<Longrightarrow> list_resources s = Inl e \<Longrightarrow>
     \<exists>e'. process_loop list_resources log_data analysis_results = Inl e' \<and>
       (\<exists>t\<in>fst ` set log_data. list_resources t = Inl e')"
proof (induction list_resources log_data analysis_results rule: process_loop.induct)
  case (1 list_resources analysis_results)
  then show ?case by simp
next
  case (2 list_resources sub_id sub_df rest analysis_results)
  show ?case
  proof (cases "list_resources sub_id")
    case (Inl e1)
    then show ?thesis by auto
  next
    case (Inr sub_resources)
    with "2.prems" have s: "s \<in> fst ` set rest" by auto
    obtain result where res: "analyse sub_df sub_resources = Inr result"
      using analyse_Inr by blast
    from "2.IH" [OF Inr res s "2.prems"(2)] Inr res show ?thesis by auto
  qed
qed

lemma main_after_ingest_raises:
  "ingest_loop feeds subs [] = Some (Inl e') \<Longrightarrow>
     main (Inr subs) feeds list_resources generate_excel_report = Some (except_Exception e')"
  by (simp add: main_def)

lemma main_after_listing_raises:
  "ingest_loop feeds subs [] = Some (Inr log_data) \<Longrightarrow>
   process_loop list_resources log_data [] = Inl e' \<Longrightarrow>
     main (Inr subs) feeds list_resources generate_excel_report = Some (except_Exception e')"
  by (simp add: main_def process_log_data_def)

lemma ingest_closed: "ingest_subscription_logs s (sconst Closed) = Some (Inr [])"
  by (simp add: ingest_subscription_logs_def receive.simps [of "sconst Closed"])

lemma ingest_client_error:
  "ingest_subscription_logs s (sconst (ClientError x)) = Some (Inl x)"
  by (simp add: ingest_subscription_logs_def receive.simps [of "sconst (ClientError x)"])

section \<open>Claims about the run\<close>

text \<open>
  C2, as the code has it. The claim that a failure of one subscription is recorded in
  its slot while the others are processed fails: the one \<open>try\<close> of \<open>main\<close> is around
  the whole body. What holds for every run over a sequence of subscriptions, one of which
  fails, its ingestion raising or the listing of its resources raising. The run gives no
  results for any subscription: it does not end, or it ends with an exception at the
  handler. When the ingestion of the subscription raises and the ingestion of every
  subscription before it ends, the run ends with an exception at the handler, one that
  the ingestion of a subscription raised. When the ingestion of every subscription ends,
  the run ends with an exception at the handler, one that the ingestion of a subscription
  or the listing of its resources raised. At the handler an instance of \<open>Exception\<close> is
  printed as \<open>Log analysis failed\<close>.
\<close>

theorem one_failure_ends_run:
  assumes "s \<in> set subs"
    and "ingest_subscription_logs s (feeds s) = Some (Inl e) \<or> list_resources s = Inl e"
  shows "(main (Inr subs) feeds list_resources generate_excel_report = None \<or>
      (\<exists>e'. main (Inr subs) feeds list_resources generate_excel_report =
         Some (except_Exception e'))) \<and>
    (\<forall>pre post. subs = pre @ s # post \<and>
        ingest_subscription_logs s (feeds s) = Some (Inl e) \<and>
        (\<forall>t\<in>set pre. ingest_subscription_logs t (feeds t) \<noteq> None) \<longrightarrow>
      (\<exists>e'. main (Inr subs) feeds list_resources generate_excel_report =
           Some (except_Exception e') \<and>
         (\<exists>t\<in>set subs. ingest_subscription_logs t (feeds t) = Some (Inl e')))) \<and>
    ((\<forall>t\<in>set subs. ingest_subscription_logs t (feeds t) \<noteq> None) \<longrightarrow>
      (\<exists>e'. main (Inr subs) feeds list_resources generate_excel_report =
           Some (except_Exception e') \<and>
         (\<exists>t\<in>set subs. ingest_subscription_logs t (feeds t) = Some (Inl e') \<or>
            list_resources t = Inl e')))"
proof -
  let ?m = "main (Inr subs) feeds list_resources generate_excel_report"
  have after_ingest: "\<exists>e'. ?m = Some (except_Exception e') \<and>
      (\<exists>t\<in>set subs. list_resources t = Inl e')"
    if ld: "ingest_loop feeds subs [] = Some (Inr log_data)" for log_data
  proof -
    have "ingest_subscription_logs s (feeds s) \<noteq> Some (Inl e)"
      using ingest_loop_fails [OF assms(1), of feeds e "[]" log_data] ld by blast
    with assms(2) have "list_resources s = Inl e" by blast
    moreover have keys: "fst ` set log_data = set subs"
      using ingest_loop_keys [OF ld] by simp
    ultimately obtain e' where "process_loop list_resources log_data [] = Inl e'"
      "\<exists>t\<in>fst ` set log_data. list_resources t = Inl e'"
      using process_loop_fails [of s log_data list_resources e "[]"] assms(1) by blast
    with ld keys show ?thesis
      using main_after_listing_raises [of feeds subs log_data list_resources e'] by auto
  qed
  have no_report: "?m = None \<or> (\<exists>e'. ?m = Some (except_Exception e'))"
  proof (cases "ingest_loop feeds subs []")
    case None
    then show ?thesis by (simp add: main_def)
  next
    case (Some r)
    show ?thesis
    proof (cases r)
      case (Inl e1)
      with Some have "?m = Some (except_Exception e1)"
        using main_after_ingest_raises [of feeds subs e1] by simp
      then show ?thesis by blast
    next
      case (Inr log_data)
      with Some after_ingest [of log_data] show ?thesis by blast
    qed
  qed
  have stream: "\<exists>e'. ?m = Some (except_Exception e') \<and>
         (\<exists>t\<in>set subs. ingest_subscription_logs t (feeds t) = Some (Inl e'))"
    if sp: "subs = pre @ s # post" and sf: "ingest_subscription_logs s (feeds s) = Some (Inl e)"
      and st: "\<forall>t\<in>set pre. ingest_subscription_logs t (feeds t) \<noteq> None" for pre post
  proof -
    obtain e' where "ingest_loop feeds (pre @ s # post) [] = Some (Inl e')"
      "\<exists>t\<in>set (pre @ s # post). ingest_subscription_logs t (feeds t) = Some (Inl e')"
      using ingest_loop_reaches [OF st sf] by blast
    with sp show ?thesis
      using main_after_ingest_raises [of feeds subs e'] by auto
  qed
  have ends: "\<exists>e'. ?m = Some (except_Exception e') \<and>
         (\<exists>t\<in>set subs. ingest_subscription_logs t (feeds t) = Some (Inl e') \<or>
            list_resources t = Inl e')"
    if all: "\<forall>t\<in>set subs. ingest_subscription_logs t (feeds t) \<noteq> None"
  proof -
    from ingest_loop_ends [OF all, of "[]"] show ?thesis
    proof
      assume "\<exists>log_data'. ingest_loop feeds subs [] = Some (Inr log_data')"
      then obtain log_data where "ingest_loop feeds subs [] = Some (Inr log_data)" by blast
      from after_ingest [OF this] show ?thesis by blast
    next
      assume "\<exists>e'. ingest_loop feeds subs [] = Some (Inl e') \<and>
        (\<exists>t\<in>set subs. ingest_subscription_logs t (feeds t) = Some (Inl e'))"
      then obtain e' where "ingest_loop feeds subs [] = Some (Inl e')"
        "\<exists>t\<in>set subs. ingest_subscription_logs t (feeds t) = Some (Inl e')" by blast
      then show ?thesis
        using main_after_ingest_raises [of feeds subs e'] by blast
    qed
  qed
  from no_report stream ends show ?thesis by blast
qed

theorem one_failure_ends_run_witness:
  "''sub-A'' \<in> set [''sub-B'', ''sub-A''] \<and>
   directory_fails_for ''sub-A'' ''sub-A'' = Inl (Exn ''HttpResponseError'' ''sub-A'') \<and>
   ingest_subscription_logs ''sub-B'' (sconst Closed) \<noteq> None \<and>
   ingest_subscription_logs ''sub-A'' (sconst Closed) \<noteq> None \<and>
   main (Inr [''sub-B'', ''sub-A'']) (\<lambda>s. sconst Closed) (directory_fails_for ''sub-A'')
       (\<lambda>log_data analysis_results. None) =
     Some (Log_analysis_failed (Exn ''HttpResponseError'' ''sub-A'')) \<and>
   [''sub-B'', ''sub-A'', ''sub-C''] = [''sub-B''] @ ''sub-A'' # [''sub-C''] \<and>
   ingest_subscription_logs ''sub-A'' (feed_fails_for ''sub-A'' ''sub-A'') =
     Some (Inl (Exn ''EventHubError'' ''sub-A'')) \<and>
   ingest_subscription_logs ''sub-B'' (feed_fails_for ''sub-A'' ''sub-B'') \<noteq> None \<and>
   main (Inr [''sub-B'', ''sub-A'', ''sub-C'']) (feed_fails_for ''sub-A'') (\<lambda>s. Inr [])
       (\<lambda>log_data analysis_results. None) =
     Some (Log_analysis_failed (Exn ''EventHubError'' ''sub-A''))"
proof -
  let ?dir = "directory_fails_for ''sub-A''"
  let ?gen = "\<lambda>(log_data :: log_data_t) (analysis_results :: analysis_results_t). None :: exn option"
  have a: "''sub-A'' \<in> set [''sub-B'', ''sub-A'']" by simp
  have b: "?dir ''sub-A'' = Inl (Exn ''HttpResponseError'' ''sub-A'')"
    by (simp add: directory_fails_for_def)
  have c: "\<forall>t\<in>set [''sub-B'', ''sub-A'']. ingest_subscription_logs t (sconst Closed) \<noteq> None"
    by (simp add: ingest_closed)
  from one_failure_ends_run [where s = "''sub-A''" and subs = "[''sub-B'', ''sub-A'']"
      and feeds = "\<lambda>s. sconst Closed" and e = "Exn ''HttpResponseError'' ''sub-A''"
      and list_resources = ?dir and generate_excel_report = ?gen] a b c
  obtain e1 where e1: "main (Inr [''sub-B'', ''sub-A'']) (\<lambda>s. sconst Closed) ?dir ?gen =
        Some (except_Exception e1)"
      "\<exists>t\<in>set [''sub-B'', ''sub-A'']. ingest_subscription_logs t (sconst Closed) = Some (Inl e1) \<or>
         ?dir t = Inl e1"
    by blast
  from e1(2) have "e1 = Exn ''HttpResponseError'' ''sub-A''"
    by (auto simp: ingest_closed directory_fails_for_def)
  with e1(1) have first: "main (Inr [''sub-B'', ''sub-A'']) (\<lambda>s. sconst Closed) ?dir ?gen =
      Some (Log_analysis_failed (Exn ''HttpResponseError'' ''sub-A''))"
    by (simp add: except_Exception_def is_Exception_def)
  let ?feeds = "feed_fails_for ''sub-A''"
  have a': "''sub-A'' \<in> set [''sub-B'', ''sub-A'', ''sub-C'']" by simp
  have p: "[''sub-B'', ''sub-A'', ''sub-C''] = [''sub-B''] @ ''sub-A'' # [''sub-C'']" by simp
  have f: "ingest_subscription_logs ''sub-A'' (?feeds ''sub-A'') =
      Some (Inl (Exn ''EventHubError'' ''sub-A''))"
    by (simp add: feed_fails_for_def ingest_client_error)
  have g: "ingest_subscription_logs ''sub-B'' (?feeds ''sub-B'') = Some (Inr [])"
    by (simp add: feed_fails_for_def ingest_closed)
  have h: "ingest_subscription_logs ''sub-C'' (?feeds ''sub-C'') = Some (Inr [])"
    by (simp add: feed_fails_for_def ingest_closed)
  from g have pre: "\<forall>t\<in>set [''sub-B'']. ingest_subscription_logs t (?feeds t) \<noteq> None"
    by simp
  from one_failure_ends_run [where s = "''sub-A''" and subs = "[''sub-B'', ''sub-A'', ''sub-C'']"
      and feeds = ?feeds and e = "Exn ''EventHubError'' ''sub-A''"
      and list_resources = "\<lambda>s. Inr []" and generate_excel_report = ?gen] a' f p pre
  obtain e2 where e2: "main (Inr [''sub-B'', ''sub-A'', ''sub-C'']) ?feeds (\<lambda>s. Inr []) ?gen =
        Some (except_Exception e2)"
      "\<exists>t\<in>set [''sub-B'', ''sub-A'', ''sub-C''].
         ingest_subscription_logs t (?feeds t) = Some (Inl e2)"
    by blast
  from e2(2) f g h have "e2 = Exn ''EventHubError'' ''sub-A''" by auto
  with e2(1) have second: "main (Inr [''sub-B'', ''sub-A'', ''sub-C'']) ?feeds (\<lambda>s. Inr []) ?gen =
      Some (Log_analysis_failed (Exn ''EventHubError'' ''sub-A''))"
    by (simp add: except_Exception_def is_Exception_def)
  from a b first p f g second show ?thesis by (simp add: ingest_closed)
qed

text \<open>
  Two subscriptions, the resources of the first cannot be listed, those of the second
  can: the run ends in the handler, with nothing for the second subscription.
\<close>

theorem one_failure_ends_run_counterexample:
  "main (Inr [''sub-A'', ''sub-B'']) (\<lambda>s. sconst Closed) (directory_fails_for ''sub-A'')
      (\<lambda>log_data analysis_results. None) =
     Some (Log_analysis_failed (Exn ''HttpResponseError'' ''sub-A''))"
  by (simp add: main_def ingest_closed process_log_data_def directory_fails_for_def
      except_Exception_def is_Exception_def)

end
